theory Spec2Isabelle
  imports Main
begin

section \<open>Text values\<close>

text \<open>
  A Python \<^verbatim>\<open>str\<close> is a sequence of Unicode code points, so a string is a list of
  natural numbers here; \<open>py\<close> turns an ASCII literal into such a list.
\<close>

type_synonym codepoint = nat
type_synonym str = "codepoint list"

definition py :: "string \<Rightarrow> str" where
  "py s = map of_char s"

text \<open>
  \<^verbatim>\<open>str.isspace\<close> on one code point: the code points Python treats as whitespace.
\<close>

definition isspace :: "codepoint \<Rightarrow> bool" where
  "isspace c \<longleftrightarrow>
     (9 \<le> c \<and> c \<le> 13) \<or> (28 \<le> c \<and> c \<le> 32) \<or> c = 133 \<or> c = 160 \<or> c = 5760 \<or>
     (8192 \<le> c \<and> c \<le> 8202) \<or> c = 8232 \<or> c = 8233 \<or> c = 8239 \<or> c = 8287 \<or> c = 12288"

text \<open>\<^verbatim>\<open>s.strip()\<close>: leading and trailing whitespace removed.\<close>

definition strip :: "str \<Rightarrow> str" where
  "strip s = rev (dropWhile isspace (rev (dropWhile isspace s)))"

text \<open>\<^verbatim>\<open>s.endswith(suffix)\<close>.\<close>

definition endswith :: "str \<Rightarrow> str \<Rightarrow> bool" where
  "endswith s suffix \<longleftrightarrow>
     length suffix \<le> length s \<and> drop (length s - length suffix) s = suffix"

section \<open>The record type\<close>

record ReferenceObject =
  object_name :: str
  object_type :: str
  pkg_file_path :: str
  line_number :: int

section \<open>The parsed tree\<close>

text \<open>
  An \<^verbatim>\<open>xml.etree.ElementTree.Element\<close>: its tag, its attribute dictionary, its
  \<^verbatim>\<open>text\<close> (\<open>None\<close> when the element has no text before its first child) and its
  children in document order.
\<close>

datatype element =
  Element (tag: str) (attrib: "(str \<times> str) list") (text': "str option") (children: "element list")

text \<open>\<^verbatim>\<open>root.iter()\<close>: the element itself, then its descendants, in document order.\<close>

fun iter :: "element \<Rightarrow> element list" where
  "iter (Element t a x cs) = Element t a x cs # concat (map iter cs)"

text \<open>\<^verbatim>\<open>elem.get(key)\<close> and \<^verbatim>\<open>elem.get(key, default)\<close>.\<close>

definition get :: "element \<Rightarrow> str \<Rightarrow> str option" where
  "get e key = map_of (attrib e) key"

definition get_default :: "element \<Rightarrow> str \<Rightarrow> str \<Rightarrow> str" where
  "get_default e key d = (case map_of (attrib e) key of None \<Rightarrow> d | Some v \<Rightarrow> v)"

section \<open>The structured path\<close>

text \<open>
  The body of the loop over \<^verbatim>\<open>root.iter()\<close>: \<open>results\<close> is the list built so far,
  returned with the record of \<open>obj_elem\<close> appended when the element qualifies.
\<close>

definition structured_step :: "str \<Rightarrow> ReferenceObject list \<Rightarrow> element \<Rightarrow> ReferenceObject list" where
  "structured_step file_path results obj_elem =
     (if endswith (tag obj_elem) (py ''Object'') \<or> tag obj_elem = py ''Object'' then
        let reference_attr = get obj_elem (py ''Reference'') in
        if reference_attr = Some (py ''true'') then
          let type_v = get_default obj_elem (py ''Type'') (py ''Unknown'');
              name_v = (case text' obj_elem of
                          None \<Rightarrow> []
                        | Some t \<Rightarrow> if t \<noteq> [] then strip t else [])
          in if name_v \<noteq> [] then
               results @ [\<lparr>object_name = name_v, object_type = type_v,
                            pkg_file_path = file_path, line_number = 0\<rparr>]
             else results
        else results
      else results)"

definition structured_records :: "str \<Rightarrow> element \<Rightarrow> ReferenceObject list" where
  "structured_records file_path root = foldl (structured_step file_path) [] (iter root)"

section \<open>Regular expressions\<close>

text \<open>
  The two patterns of the fallback path are sequences of three kinds of items: a literal
  text, a greedy \<^verbatim>\<open>[^c]*\<close>, and a capturing \<^verbatim>\<open>([^c]*)\<close>.
\<close>

datatype re_item = Lits str | NotStar codepoint | Group codepoint

text \<open>
  Under \<^verbatim>\<open>re.IGNORECASE\<close> a literal letter matches both of its cases. The letters of
  the two patterns are ASCII and none of them is \<^verbatim>\<open>i\<close>, \<^verbatim>\<open>k\<close> or \<^verbatim>\<open>s\<close>, the only
  ASCII letters with a non-ASCII code point that lowers to them, so folding the ASCII
  capitals is all that the comparison needs.
\<close>

definition lower :: "codepoint \<Rightarrow> codepoint" where
  "lower c = (if 65 \<le> c \<and> c \<le> 90 then c + 32 else c)"

text \<open>A literal text at the start of the input: the rest of the input, if it matches.\<close>

fun match_lits :: "str \<Rightarrow> str \<Rightarrow> str option" where
  "match_lits [] s = Some s"
| "match_lits (p # ps) [] = None"
| "match_lits (p # ps) (x # xs) = (if lower x = lower p then match_lits ps xs else None)"

text \<open>
  A greedy star that has \<open>k\<close> characters available tries the longest run first and gives
  characters back one at a time until the continuation \<open>m\<close> matches what follows; \<open>m\<close>
  is given the run taken and the input after it.
\<close>

fun greedy :: "(str \<Rightarrow> str \<Rightarrow> 'a option) \<Rightarrow> str \<Rightarrow> nat \<Rightarrow> 'a option" where
  "greedy m s 0 = m [] s"
| "greedy m s (Suc k) =
     (case m (take (Suc k) s) (drop (Suc k) s) of
        Some r \<Rightarrow> Some r
      | None \<Rightarrow> greedy m s k)"

text \<open>
  Matching a pattern at the start of the input, by backtracking: the captured groups
  and the input after the match, or \<open>None\<close>.
\<close>

fun match_items :: "re_item list \<Rightarrow> str \<Rightarrow> (str list \<times> str) option" where
  "match_items [] s = Some ([], s)"
| "match_items (Lits l # ps) s =
     (case match_lits l s of None \<Rightarrow> None | Some s' \<Rightarrow> match_items ps s')"
| "match_items (NotStar c # ps) s =
     greedy (\<lambda>run s'. match_items ps s') s (length (takeWhile (\<lambda>x. x \<noteq> c) s))"
| "match_items (Group c # ps) s =
     greedy (\<lambda>run s'. case match_items ps s' of
                         None \<Rightarrow> None
                       | Some (gs, s'') \<Rightarrow> Some (run # gs, s''))
            s (length (takeWhile (\<lambda>x. x \<noteq> c) s))"

text \<open>
  \<^verbatim>\<open>re.findall\<close>: the groups of the non-overlapping matches, scanning from the left;
  after a match the scan goes on where the match ended, after a failure one character on.
\<close>

function findall :: "re_item list \<Rightarrow> str \<Rightarrow> str list list" where
  "findall p s =
     (case match_items p s of
        Some (gs, s') \<Rightarrow>
          if length s' < length s then gs # findall p s'
          else if s = [] then [gs]
          else gs # findall p (tl s)
      | None \<Rightarrow> if s = [] then [] else findall p (tl s))"
  by pat_completeness auto
termination
  by (relation "measure (\<lambda>(p, s). length s)") auto

declare findall.simps [simp del]

text \<open>
  \<^verbatim>\<open><Object[^>]*Type="([^"]*)"[^>]*Reference="true"[^>]*>([^<]*)</Object>\<close>
\<close>

definition pattern :: "re_item list" where
  "pattern =
     [Lits (py ''<Object''), NotStar (of_char CHR ''>''), Lits (py ''Type=\"''),
      Group (of_char CHR ''\"''), Lits (py ''\"''), NotStar (of_char CHR ''>''),
      Lits (py ''Reference=\"true\"''), NotStar (of_char CHR ''>''), Lits (py ''>''),
      Group (of_char CHR ''<''), Lits (py ''</Object>'')]"

text \<open>
  \<^verbatim>\<open><Object[^>]*Reference="true"[^>]*Type="([^"]*)"[^>]*>([^<]*)</Object>\<close>
\<close>

definition pattern_reverse :: "re_item list" where
  "pattern_reverse =
     [Lits (py ''<Object''), NotStar (of_char CHR ''>''), Lits (py ''Reference=\"true\"''),
      NotStar (of_char CHR ''>''), Lits (py ''Type=\"''), Group (of_char CHR ''\"''),
      Lits (py ''\"''), NotStar (of_char CHR ''>''), Lits (py ''>''),
      Group (of_char CHR ''<''), Lits (py ''</Object>'')]"

section \<open>The fallback path\<close>

text \<open>
  The body of the loop over the matches of the first pattern; a match is the tuple of
  its two groups, the type and the name (\<open>name_v\<close> is the name once stripped).
\<close>

definition fallback_step :: "str \<Rightarrow> ReferenceObject list \<Rightarrow> str list \<Rightarrow> ReferenceObject list" where
  "fallback_step file_path results m =
     (case m of
        [type_v, name_m] \<Rightarrow>
          let name_v = strip name_m in
          if name_v \<noteq> [] then
            results @ [\<lparr>object_name = name_v, object_type = type_v,
                         pkg_file_path = file_path, line_number = 0\<rparr>]
          else results
      | _ \<Rightarrow> results)"

text \<open>
  The body of the loop over the matches of the reverse pattern: a record is appended
  unless one with the same name, type and path is in \<open>results\<close> already.
\<close>

definition fallback_step_reverse ::
    "str \<Rightarrow> ReferenceObject list \<Rightarrow> str list \<Rightarrow> ReferenceObject list" where
  "fallback_step_reverse file_path results m =
     (case m of
        [type_v, name_m] \<Rightarrow>
          let name_v = strip name_m in
          if name_v \<noteq> [] then
            let existing = list_ex (\<lambda>ref. object_name ref = name_v \<and>
                                          object_type ref = type_v \<and>
                                          pkg_file_path ref = file_path) results
            in if \<not> existing then
                 results @ [\<lparr>object_name = name_v, object_type = type_v,
                              pkg_file_path = file_path, line_number = 0\<rparr>]
               else results
          else results
      | _ \<Rightarrow> results)"

definition fallback_records :: "str \<Rightarrow> str \<Rightarrow> ReferenceObject list" where
  "fallback_records file_path content =
     (let matches = findall pattern content;
          results = foldl (fallback_step file_path) [] matches;
          matches_reverse = findall pattern_reverse content
      in foldl (fallback_step_reverse file_path) results matches_reverse)"

section \<open>The environment\<close>

text \<open>
  What the program asks of the Python library and of the operating system is a
  parameter of the model:
  \<^item> \<open>open_read\<close>: opening a path and reading it as text (UTF-8, undecodable bytes
    ignored): the content, or the message of the exception raised;
  \<^item> \<open>fromstring\<close>: \<^verbatim>\<open>ET.fromstring\<close>, which returns the root element, raises
    \<^verbatim>\<open>ParseError\<close>, or raises another exception;
  \<^item> \<open>walk\<close>: the triples \<open>(root, dirs, files)\<close> that \<^verbatim>\<open>os.walk\<close> yields from a path;
  \<^item> \<open>path_join\<close>: \<^verbatim>\<open>os.path.join\<close>.
\<close>

datatype parse_result = Tree element | ParseError | Raised str

record env =
  open_read :: "str \<Rightarrow> str + str"
  fromstring :: "str \<Rightarrow> parse_result"
  walk :: "str \<Rightarrow> (str \<times> str list \<times> str list) list"
  path_join :: "str \<Rightarrow> str \<Rightarrow> str"

section \<open>The extractor and the walker\<close>

text \<open>The line printed by the handler of the outer \<^verbatim>\<open>try\<close>.\<close>

definition warning :: "str \<Rightarrow> str \<Rightarrow> str" where
  "warning file_path e = py ''Warning: Error processing '' @ file_path @ py '': '' @ e"

text \<open>
  The result is the list returned together with the lines printed. An exception other
  than \<^verbatim>\<open>ParseError\<close> leaves the \<^verbatim>\<open>try\<close> block before any record is appended.
\<close>

definition process_pkg_for_references :: "env \<Rightarrow> str \<Rightarrow> ReferenceObject list \<times> str list" where
  "process_pkg_for_references E file_path =
     (case open_read E file_path of
        Inl e \<Rightarrow> ([], [warning file_path e])
      | Inr content \<Rightarrow>
          (case fromstring E content of
             Tree root \<Rightarrow> (structured_records file_path root, [])
           | ParseError \<Rightarrow> (fallback_records file_path content, [])
           | Raised e \<Rightarrow> ([], [warning file_path e])))"

text \<open>The two nested loops of the walker, over the triples and over the file names.\<close>

definition walk_file ::
    "env \<Rightarrow> str \<Rightarrow> ReferenceObject list \<times> str list \<Rightarrow> str \<Rightarrow> ReferenceObject list \<times> str list" where
  "walk_file E root acc file =
     (if endswith file (py ''.pkg'') then
        let file_path = path_join E root file;
            (references, printed) = process_pkg_for_references E file_path
        in (fst acc @ references, snd acc @ printed)
      else acc)"

definition walk_dir ::
    "env \<Rightarrow> ReferenceObject list \<times> str list \<Rightarrow> str \<times> str list \<times> str list
       \<Rightarrow> ReferenceObject list \<times> str list" where
  "walk_dir E acc triple = (case triple of (root, dirs, files) \<Rightarrow> foldl (walk_file E root) acc files)"

definition check_reference_objects :: "env \<Rightarrow> str \<Rightarrow> ReferenceObject list \<times> str list" where
  "check_reference_objects E project_path = foldl (walk_dir E) ([], []) (walk E project_path)"

section \<open>Notions used to state the properties\<close>

text \<open>
  The structured path, element by element: the trimmed text of an element, the test
  that makes it contribute a record, and the record it contributes.
\<close>

definition trimmed_text :: "element \<Rightarrow> str" where
  "trimmed_text e = (case text' e of None \<Rightarrow> [] | Some t \<Rightarrow> strip t)"

definition is_reference_object :: "element \<Rightarrow> bool" where
  "is_reference_object e \<longleftrightarrow>
     (endswith (tag e) (py ''Object'') \<or> tag e = py ''Object'') \<and>
     get e (py ''Reference'') = Some (py ''true'') \<and> trimmed_text e \<noteq> []"

definition structured_record :: "str \<Rightarrow> element \<Rightarrow> ReferenceObject" where
  "structured_record file_path e =
     \<lparr>object_name = trimmed_text e,
      object_type = get_default e (py ''Type'') (py ''Unknown''),
      pkg_file_path = file_path, line_number = 0\<rparr>"

definition triple_paths :: "env \<Rightarrow> str \<times> str list \<times> str list \<Rightarrow> str list" where
  "triple_paths E triple =
     (case triple of (root, dirs, files) \<Rightarrow>
        map (path_join E root) (filter (\<lambda>file. endswith file (py ''.pkg'')) files))"

definition pkg_paths :: "env \<Rightarrow> str \<Rightarrow> str list" where
  "pkg_paths E project_path = concat (map (triple_paths E) (walk E project_path))"

text \<open>
  Notions about the fallback path: a text occurring in another one, letters compared
  without case; the text of the tag that opens at the start of the input, up to its
  \<^verbatim>\<open>>\<close>; a literal of a pattern that only literals free of \<^verbatim>\<open>>\<close> and \<^verbatim>\<open>[^>]*\<close>
  items come before; the record a match stands for; the triple the duplicate check
  compares; and the records of the first pattern alone.
\<close>

fun contains_ci :: "str \<Rightarrow> str \<Rightarrow> bool" where
  "contains_ci l [] = (match_lits l [] \<noteq> None)"
| "contains_ci l (x # xs) = (match_lits l (x # xs) \<noteq> None \<or> contains_ci l xs)"

definition open_tag :: "str \<Rightarrow> str" where
  "open_tag s = takeWhile (\<lambda>x. x \<noteq> of_char CHR ''>'') s"

fun in_open_tag :: "str \<Rightarrow> re_item list \<Rightarrow> bool" where
  "in_open_tag l [] = False"
| "in_open_tag l (Lits l' # ps) = (of_char CHR ''>'' \<notin> set l' \<and> (l' = l \<or> in_open_tag l ps))"
| "in_open_tag l (NotStar c # ps) = (c = of_char CHR ''>'' \<and> in_open_tag l ps)"
| "in_open_tag l (Group c # ps) = False"

definition match_record :: "str \<Rightarrow> str list \<Rightarrow> ReferenceObject option" where
  "match_record file_path m =
     (case m of
        [type_v, name_m] \<Rightarrow>
          if strip name_m \<noteq> [] then
            Some \<lparr>object_name = strip name_m, object_type = type_v,
                  pkg_file_path = file_path, line_number = 0\<rparr>
          else None
      | _ \<Rightarrow> None)"

definition triple_of :: "ReferenceObject \<Rightarrow> str \<times> str \<times> str" where
  "triple_of r = (object_name r, object_type r, pkg_file_path r)"

definition forward_records :: "str \<Rightarrow> str \<Rightarrow> ReferenceObject list" where
  "forward_records file_path content = foldl (fallback_step file_path) [] (findall pattern content)"

section \<open>A sample project\<close>

text \<open>
  Contents used as concrete inputs, with what \<^verbatim>\<open>ET.fromstring\<close> makes of them: the two
  well-formed ones parse to the trees below, the others raise \<^verbatim>\<open>ParseError\<close>.
\<close>

definition foo_content :: str where
  "foo_content = py ''<Root><MyObject Type=\"File\" Reference=\"true\">foo.txt</MyObject></Root>''"

definition foo_tree :: element where
  "foo_tree =
     Element (py ''Root'') [] None
       [Element (py ''MyObject'') [(py ''Type'', py ''File''), (py ''Reference'', py ''true'')]
          (Some (py ''foo.txt'')) []]"

definition two_content :: str where
  "two_content =
     py ''<Root><Object Type=\"File\" Reference=\"true\"> a.txt </Object><LibObject Reference=\"true\">b.lib</LibObject><Object Reference=\"True\">c</Object></Root>''"

definition two_tree :: element where
  "two_tree =
     Element (py ''Root'') [] None
       [Element (py ''Object'') [(py ''Type'', py ''File''), (py ''Reference'', py ''true'')]
          (Some (py '' a.txt '')) [],
        Element (py ''LibObject'') [(py ''Reference'', py ''true'')] (Some (py ''b.lib'')) [],
        Element (py ''Object'') [(py ''Reference'', py ''True'')] (Some (py ''c'')) []]"

definition unbalanced_content :: str where
  "unbalanced_content = py ''<Object Type=\"Lib\" Reference=\"true\">bar.lib<Object>''"

definition closed_content :: str where
  "closed_content = py ''<Object Type=\"Lib\" Reference=\"true\">bar.lib</Object><Object>''"

definition twice_content :: str where
  "twice_content =
     py ''<Object Type=\"A\" Reference=\"true\">X</Object><Object Type=\"A\" Reference=\"true\">X</Object>''"

definition both_content :: str where
  "both_content =
     py ''<Object Type=\"A\" Reference=\"true\" Type=\"A\">X</Object><Object Type=\"A\" Reference=\"true\" Type=\"A\">X</Object>''"

definition orders_content :: str where
  "orders_content =
     py ''<Object Type=\"A\" Reference=\"true\">X</Object><Object Reference=\"true\" Type=\"A\">X</Object>''"

definition false_content :: str where
  "false_content = py ''<Root><Object Type=\"A\" Reference=\"false\" XReference=\"true\">X</Object>''"

definition notype_content :: str where
  "notype_content = py ''<Root><Object Reference=\"true\">X</Object>''"

definition lowerref_content :: str where
  "lowerref_content = py ''<Root><Object Type=\"A\" reference=\"true\">X</Object>''"

definition xtype_content :: str where
  "xtype_content = py ''<Root><Object XType=\"A\" Reference=\"true\">X</Object>''"

definition lowertype_content :: str where
  "lowertype_content = py ''<Root><Object type=\"A\" Reference=\"true\">X</Object>''"

definition sample_parses :: "(str \<times> parse_result) list" where
  "sample_parses = [(foo_content, Tree foo_tree), (two_content, Tree two_tree)]"

text \<open>The files of the sample project: what opening and reading each path gives.\<close>

definition sample_files :: "(str \<times> (str + str)) list" where
  "sample_files =
     [(py ''proj/a.pkg'', Inr foo_content),
      (py ''proj/b.pkg'', Inl (py ''Permission denied'')),
      (py ''proj/notes.txt'', Inr foo_content),
      (py ''proj/sub/c.pkg'', Inr closed_content),
      (py ''two/good.pkg'', Inr two_content),
      (py ''two/bad.pkg'', Inl (py ''Permission denied'')),
      (py ''docs/readme.txt'', Inr foo_content),
      (py ''unbalanced.pkg'', Inr unbalanced_content),
      (py ''twice.pkg'', Inr twice_content),
      (py ''both.pkg'', Inr both_content),
      (py ''orders.pkg'', Inr orders_content),
      (py ''false.pkg'', Inr false_content),
      (py ''notype.pkg'', Inr notype_content),
      (py ''lowerref.pkg'', Inr lowerref_content),
      (py ''xtype.pkg'', Inr xtype_content),
      (py ''lowertype.pkg'', Inr lowertype_content)]"

text \<open>The directories of the sample project: what \<^verbatim>\<open>os.walk\<close> yields from each.\<close>

definition sample_dirs :: "(str \<times> (str \<times> str list \<times> str list) list) list" where
  "sample_dirs =
     [(py ''proj'',
         [(py ''proj'', [py ''sub''], [py ''a.pkg'', py ''b.pkg'', py ''notes.txt'']),
          (py ''proj/sub'', [], [py ''c.pkg''])]),
      (py ''two'', [(py ''two'', [], [py ''good.pkg'', py ''bad.pkg''])]),
      (py ''docs'', [(py ''docs'', [], [py ''readme.txt''])])]"

text \<open>\<^verbatim>\<open>os.path.join\<close> of two components on a POSIX system.\<close>

definition posix_join :: "str \<Rightarrow> str \<Rightarrow> str" where
  "posix_join a b =
     (if b \<noteq> [] \<and> hd b = of_char CHR ''/'' then b
      else if a = [] \<or> last a = of_char CHR ''/'' then a @ b
      else a @ py ''/'' @ b)"

definition sample_env :: env where
  "sample_env =
     \<lparr>open_read = (\<lambda>p. case map_of sample_files p of
                          None \<Rightarrow> Inl (py ''No such file or directory'')
                        | Some r \<Rightarrow> r),
      fromstring = (\<lambda>c. case map_of sample_parses c of None \<Rightarrow> ParseError | Some t \<Rightarrow> t),
      walk = (\<lambda>p. case map_of sample_dirs p of None \<Rightarrow> [] | Some ts \<Rightarrow> ts),
      path_join = posix_join\<rparr>"

section \<open>Properties of the structured path, of \<open>strip\<close> and of the walker\<close>

lemma strip_Nil: "strip [] = []"
  by (simp add: strip_def)

lemma structured_step_eq:
  "structured_step p results e =
     results @ (if is_reference_object e then [structured_record p e] else [])"
  by (simp add: structured_step_def is_reference_object_def structured_record_def
      trimmed_text_def strip_Nil Let_def split: option.splits)

lemma foldl_structured_step:
  "foldl (structured_step p) acc es = acc @ map (structured_record p) (filter is_reference_object es)"
  by (induction es arbitrary: acc) (simp_all add: structured_step_eq)

lemma structured_records_eq:
  "structured_records p root = map (structured_record p) (filter is_reference_object (iter root))"
  by (simp add: structured_records_def foldl_structured_step)

lemma rstrip_take: "rev (dropWhile P (rev xs)) = take (length xs - length (takeWhile P (rev xs))) xs"
  by (simp add: dropWhile_eq_drop rev_drop)

lemma dropWhile_hd: "dropWhile P xs \<noteq> [] \<Longrightarrow> \<not> P (hd (dropWhile P xs))"
  by (simp add: hd_dropWhile)

lemma strip_hd: "strip s \<noteq> [] \<Longrightarrow> \<not> isspace (hd (strip s))"
proof -
  assume ne: "strip s \<noteq> []"
  let ?t = "dropWhile isspace s"
  have st: "strip s = take (length ?t - length (takeWhile isspace (rev ?t))) ?t"
    by (simp add: strip_def rstrip_take)
  with ne have tne: "?t \<noteq> []" by auto
  from st ne have "hd (strip s) = hd ?t"
    by (metis hd_take take_eq_Nil2 not_gr_zero)
  with tne show ?thesis by (simp add: hd_dropWhile)
qed

lemma strip_last: "strip s \<noteq> [] \<Longrightarrow> \<not> isspace (last (strip s))"
proof -
  assume ne: "strip s \<noteq> []"
  let ?u = "dropWhile isspace (rev (dropWhile isspace s))"
  have "strip s = rev ?u" by (simp add: strip_def)
  with ne have "?u \<noteq> []" by simp
  then have "\<not> isspace (hd ?u)" by (rule dropWhile_hd)
  then show ?thesis using \<open>?u \<noteq> []\<close> by (simp add: strip_def last_rev)
qed

lemma strip_idem: "strip (strip s) = strip s"
proof (cases "strip s = []")
  case True
  then show ?thesis by (simp add: strip_Nil)
next
  case False
  then have h: "\<not> isspace (hd (strip s))" and l: "\<not> isspace (last (strip s))"
    by (simp_all add: strip_hd strip_last)
  from False h have 1: "dropWhile isspace (strip s) = strip s"
    by (simp add: dropWhile_eq_self_iff)
  from False l have 2: "dropWhile isspace (rev (strip s)) = rev (strip s)"
    by (simp add: dropWhile_eq_self_iff hd_rev)
  show ?thesis
    unfolding strip_def [of "strip s"] 1 2 by simp
qed

lemma walk_file_eq:
  "walk_file E root acc file =
     (if endswith file (py ''.pkg'')
      then (fst acc @ fst (process_pkg_for_references E (path_join E root file)),
            snd acc @ snd (process_pkg_for_references E (path_join E root file)))
      else acc)"
  by (simp add: walk_file_def Let_def split: prod.splits)

lemma foldl_walk_file:
  "foldl (walk_file E root) acc files =
     (fst acc @ concat (map (\<lambda>f. fst (process_pkg_for_references E (path_join E root f)))
                            (filter (\<lambda>file. endswith file (py ''.pkg'')) files)),
      snd acc @ concat (map (\<lambda>f. snd (process_pkg_for_references E (path_join E root f)))
                            (filter (\<lambda>file. endswith file (py ''.pkg'')) files)))"
  by (induction files arbitrary: acc) (simp_all add: walk_file_eq)

lemma walk_dir_eq:
  "walk_dir E acc triple =
     (fst acc @ concat (map (\<lambda>p. fst (process_pkg_for_references E p)) (triple_paths E triple)),
      snd acc @ concat (map (\<lambda>p. snd (process_pkg_for_references E p)) (triple_paths E triple)))"
  by (cases triple) (simp add: walk_dir_def triple_paths_def foldl_walk_file comp_def)

lemma foldl_walk_dir:
  "foldl (walk_dir E) acc triples =
     (fst acc @ concat (map (\<lambda>p. fst (process_pkg_for_references E p))
                            (concat (map (triple_paths E) triples))),
      snd acc @ concat (map (\<lambda>p. snd (process_pkg_for_references E p))
                            (concat (map (triple_paths E) triples))))"
  by (induction triples arbitrary: acc) (simp_all add: walk_dir_eq)

lemma check_reference_objects_eq:
  "check_reference_objects E project_path =
     (concat (map (\<lambda>p. fst (process_pkg_for_references E p)) (pkg_paths E project_path)),
      concat (map (\<lambda>p. snd (process_pkg_for_references E p)) (pkg_paths E project_path)))"
  by (simp add: check_reference_objects_def foldl_walk_dir pkg_paths_def)



section \<open>Properties of the matcher\<close>

lemma greedy_SomeD:
  "greedy m s k = Some r \<Longrightarrow> \<exists>j\<le>k. m (take j s) (drop j s) = Some r"
proof (induction k)
  case 0
  then show ?case by simp
next
  case (Suc k)
  show ?case
  proof (cases "m (take (Suc k) s) (drop (Suc k) s)")
    case None
    with Suc.prems have "greedy m s k = Some r" by simp
    then obtain j where "j \<le> k" "m (take j s) (drop j s) = Some r"
      using Suc.IH by blast
    then show ?thesis using le_Suc_eq by blast
  next
    case (Some a)
    with Suc.prems have "a = r" by simp
    with Some show ?thesis by blast
  qed
qed

lemma match_lits_SomeD:
  "match_lits l s = Some s' \<Longrightarrow> \<exists>m. s = m @ s' \<and> length m = length l \<and> map lower m = map lower l"
proof (induction l s rule: match_lits.induct)
  case (1 s)
  then show ?case by simp
next
  case (2 p ps)
  then show ?case by simp
next
  case (3 p ps x xs)
  from "3.prems" have eq: "lower x = lower p" and rest: "match_lits ps xs = Some s'"
    by (simp_all split: if_splits)
  from "3.IH" [OF eq rest] obtain m where "xs = m @ s'" "length m = length ps" "map lower m = map lower ps"
    by blast
  then have "x # xs = (x # m) @ s' \<and> length (x # m) = length (p # ps) \<and> map lower (x # m) = map lower (p # ps)"
    using eq by simp
  then show ?case by blast
qed

lemma match_lits_append:
  "length m = length l \<Longrightarrow> map lower m = map lower l \<Longrightarrow> match_lits l (m @ t) = Some t"
proof (induction l arbitrary: m)
  case Nil
  then show ?case by simp
next
  case (Cons p ps)
  then obtain x m' where "m = x # m'" by (cases m) auto
  with Cons show ?case by simp
qed

lemma lower_gt: "lower x = lower p \<Longrightarrow> p \<noteq> of_char CHR ''>'' \<Longrightarrow> x \<noteq> of_char CHR ''>''"
  unfolding lower_def by (simp split: if_splits)

lemma takeWhile_no:
  "c \<notin> set m \<Longrightarrow> takeWhile (\<lambda>x. x \<noteq> c) (m @ s') = m @ takeWhile (\<lambda>x. x \<noteq> c) s'"
  by (induction m) auto

lemma map_lower_gt:
  "map lower m = map lower l \<Longrightarrow> of_char CHR ''>'' \<notin> set l \<Longrightarrow> of_char CHR ''>'' \<notin> set m"
proof (induction l arbitrary: m)
  case Nil
  then show ?case by simp
next
  case (Cons p ps)
  from Cons.prems(1) obtain x m' where m: "m = x # m'" by (cases m) simp_all
  from Cons.prems(1) m have hd: "lower x = lower p" and tl: "map lower m' = map lower ps"
    by simp_all
  from Cons.prems(2) have p: "p \<noteq> of_char CHR ''>''" and ps: "of_char CHR ''>'' \<notin> set ps"
    by simp_all
  from hd p have "x \<noteq> of_char CHR ''>''" by (rule lower_gt)
  moreover from tl ps have "of_char CHR ''>'' \<notin> set m'" by (rule Cons.IH)
  ultimately show ?case unfolding m by simp
qed

lemma contains_ci_here: "match_lits l s \<noteq> None \<Longrightarrow> contains_ci l s"
  by (cases s) simp_all

lemma contains_ci_append: "contains_ci l s \<Longrightarrow> contains_ci l (pre @ s)"
  by (induction pre) simp_all

lemma takeWhile_take_drop:
  "j \<le> length (takeWhile P s) \<Longrightarrow> takeWhile P s = take j s @ takeWhile P (drop j s)"
proof (induction s arbitrary: j)
  case Nil
  then show ?case by simp
next
  case (Cons x xs)
  show ?case
  proof (cases j)
    case 0
    then show ?thesis by simp
  next
    case (Suc j')
    with Cons.prems have "P x" by (auto split: if_splits)
    with Cons Suc show ?thesis by simp
  qed
qed

lemma match_items_open_tag:
  "in_open_tag l ps \<Longrightarrow> match_items ps s = Some (gs, rest) \<Longrightarrow> contains_ci l (open_tag s)"
proof (induction ps arbitrary: s)
  case Nil
  then show ?case by simp
next
  case (Cons it ps)
  show ?case
  proof (cases it)
    case (Lits l')
    with Cons.prems obtain s' where ml: "match_lits l' s = Some s'" and mi: "match_items ps s' = Some (gs, rest)"
      by (auto split: option.splits)
    from ml obtain m where m: "s = m @ s'" "length m = length l'" "map lower m = map lower l'"
      using match_lits_SomeD by blast
    from Cons.prems Lits have nogt: "of_char CHR ''>'' \<notin> set l'" by simp
    with m have "of_char CHR ''>'' \<notin> set m" using map_lower_gt by blast
    then have ot: "open_tag s = m @ open_tag s'"
      unfolding open_tag_def m(1) by (rule takeWhile_no)
    show ?thesis
    proof (cases "l' = l")
      case True
      with m have "match_lits l (m @ open_tag s') = Some (open_tag s')"
        by (simp add: match_lits_append)
      then show ?thesis by (simp add: ot contains_ci_here)
    next
      case False
      with Cons.prems Lits have "in_open_tag l ps" by simp
      with Cons.IH mi have "contains_ci l (open_tag s')" by blast
      then show ?thesis by (simp add: ot contains_ci_append)
    qed
  next
    case (NotStar c)
    with Cons.prems have c: "c = of_char CHR ''>''" and io: "in_open_tag l ps" by simp_all
    from Cons.prems NotStar obtain j where j: "j \<le> length (takeWhile (\<lambda>x. x \<noteq> c) s)"
      and mi: "match_items ps (drop j s) = Some (gs, rest)"
      using greedy_SomeD [of "\<lambda>run s'. match_items ps s'" s _ "(gs, rest)"] by auto
    from io mi have "contains_ci l (open_tag (drop j s))" using Cons.IH by blast
    moreover from j have "open_tag s = take j s @ open_tag (drop j s)"
      unfolding open_tag_def c by (rule takeWhile_take_drop)
    ultimately show ?thesis by (simp add: contains_ci_append)
  next
    case (Group c)
    with Cons.prems show ?thesis by simp
  qed
qed


lemma match_lits_suffix: "match_lits l s = Some s' \<Longrightarrow> \<exists>m. s = m @ s'"
  using match_lits_SomeD by blast

lemma match_items_suffix: "match_items ps s = Some (gs, rest) \<Longrightarrow> \<exists>j. rest = drop j s"
proof (induction ps arbitrary: s gs rest)
  case Nil
  then have "rest = drop 0 s" by simp
  then show ?case by blast
next
  case (Cons it ps)
  show ?case
  proof (cases it)
    case (Lits l')
    with Cons.prems obtain s' where ml: "match_lits l' s = Some s'" and mi: "match_items ps s' = Some (gs, rest)"
      by (auto split: option.splits)
    from ml obtain m where "s = m @ s'" using match_lits_suffix by blast
    then have "s' = drop (length m) s" by simp
    moreover from Cons.IH [OF mi] obtain j where "rest = drop j s'" by blast
    ultimately have "rest = drop (length m + j) s" by (simp add: add.commute)
    then show ?thesis by blast
  next
    case (NotStar c)
    from Cons.prems NotStar obtain j where "match_items ps (drop j s) = Some (gs, rest)"
      using greedy_SomeD [of "\<lambda>run s'. match_items ps s'" s _ "(gs, rest)"] by auto
    from Cons.IH [OF this] obtain k where "rest = drop k (drop j s)" by blast
    then have "rest = drop (j + k) s" by (simp add: add.commute)
    then show ?thesis by blast
  next
    case (Group c)
    from Cons.prems Group obtain j where
      "(case match_items ps (drop j s) of None \<Rightarrow> None | Some (gs', s'') \<Rightarrow> Some (take j s # gs', s''))
         = Some (gs, rest)"
      using greedy_SomeD [of "\<lambda>run s'. case match_items ps s' of None \<Rightarrow> None
                                         | Some (gs', s'') \<Rightarrow> Some (run # gs', s'')" s _ "(gs, rest)"]
      by auto
    then obtain gs' where "match_items ps (drop j s) = Some (gs', rest)"
      by (auto split: option.splits)
    from Cons.IH [OF this] obtain k where "rest = drop k (drop j s)" by blast
    then have "rest = drop (j + k) s" by (simp add: add.commute)
    then show ?thesis by blast
  qed
qed

lemma findall_SomeD:
  "gs \<in> set (findall p s) \<Longrightarrow> \<exists>i rest. match_items p (drop i s) = Some (gs, rest)"
proof (induction "length s" arbitrary: s rule: less_induct)
  case less
  show ?case
  proof (cases "match_items p s")
    case None
    with less.prems have ne: "s \<noteq> []" and mem: "gs \<in> set (findall p (tl s))"
      by (auto simp: findall.simps [of p s] split: if_splits)
    from ne have "length (tl s) < length s" by simp
    from less.hyps [OF this mem] obtain i rest where
      "match_items p (drop i (tl s)) = Some (gs, rest)" by blast
    then have "match_items p (drop (Suc i) s) = Some (gs, rest)"
      by (simp add: drop_Suc)
    then show ?thesis by blast
  next
    case (Some a)
    obtain gs0 s' where a: "a = (gs0, s')" by (cases a) auto
    show ?thesis
    proof (cases "gs = gs0")
      case True
      with Some a have "match_items p (drop 0 s) = Some (gs, s')" by simp
      then show ?thesis by blast
    next
      case False
      show ?thesis
      proof (cases "length s' < length s")
        case True
        with less.prems Some a False have mem: "gs \<in> set (findall p s')"
          by (auto simp: findall.simps [of p s])
        from less.hyps [OF True mem] obtain i rest where
          i: "match_items p (drop i s') = Some (gs, rest)" by blast
        from Some a obtain j where "s' = drop j s" using match_items_suffix by blast
        with i have "match_items p (drop (j + i) s) = Some (gs, rest)" by (simp add: add.commute)
        then show ?thesis by blast
      next
        case nlt: False
        with less.prems Some a False have ne: "s \<noteq> []" and mem: "gs \<in> set (findall p (tl s))"
          by (auto simp: findall.simps [of p s] split: if_splits)
        from ne have "length (tl s) < length s" by simp
        from less.hyps [OF this mem] obtain i rest where
          "match_items p (drop i (tl s)) = Some (gs, rest)" by blast
        then have "match_items p (drop (Suc i) s) = Some (gs, rest)"
          by (simp add: drop_Suc)
        then show ?thesis by blast
      qed
    qed
  qed
qed

section \<open>Properties of the two loops of the fallback path\<close>

lemma fallback_step_eq:
  "fallback_step p rs m = (case match_record p m of None \<Rightarrow> rs | Some r \<Rightarrow> rs @ [r])"
  by (simp add: fallback_step_def match_record_def Let_def split: list.splits)

lemma fallback_step_reverse_eq:
  "fallback_step_reverse p rs m =
     (case match_record p m of
        None \<Rightarrow> rs
      | Some r \<Rightarrow> if triple_of r \<in> triple_of ` set rs then rs else rs @ [r])"
  by (auto simp: fallback_step_reverse_def match_record_def Let_def triple_of_def list_ex_iff
      image_iff split: list.splits)

lemma set_foldl_fallback_step:
  "set (foldl (fallback_step p) acc ms) = set acc \<union> {r. \<exists>m\<in>set ms. match_record p m = Some r}"
proof (induction ms arbitrary: acc)
  case Nil
  then show ?case by simp
next
  case (Cons m ms)
  have "set (foldl (fallback_step p) acc (m # ms)) =
          set (fallback_step p acc m) \<union> {r. \<exists>m\<in>set ms. match_record p m = Some r}"
    using Cons.IH [of "fallback_step p acc m"] by simp
  also have "set (fallback_step p acc m) =
          set acc \<union> (case match_record p m of None \<Rightarrow> {} | Some r \<Rightarrow> {r})"
    unfolding fallback_step_eq by (cases "match_record p m") simp_all
  finally show ?case
    by (cases "match_record p m") auto
qed

lemma foldl_fallback_step_reverse:
  "\<exists>extra. foldl (fallback_step_reverse p) acc ms = acc @ extra \<and>
     distinct (map triple_of extra) \<and>
     triple_of ` set extra \<inter> triple_of ` set acc = {} \<and>
     (\<forall>r\<in>set extra. \<exists>m\<in>set ms. match_record p m = Some r)"
proof (induction ms arbitrary: acc)
  case Nil
  then show ?case by simp
next
  case (Cons m ms)
  let ?acc' = "fallback_step_reverse p acc m"
  from Cons.IH [of ?acc'] obtain extra where
    e: "foldl (fallback_step_reverse p) ?acc' ms = ?acc' @ extra"
      "distinct (map triple_of extra)"
      "triple_of ` set extra \<inter> triple_of ` set ?acc' = {}"
      "\<forall>r\<in>set extra. \<exists>m\<in>set ms. match_record p m = Some r"
    by blast
  show ?case
  proof (cases "\<exists>r. match_record p m = Some r \<and> triple_of r \<notin> triple_of ` set acc")
    case True
    then obtain r where r: "match_record p m = Some r" "triple_of r \<notin> triple_of ` set acc"
      by blast
    then have acc': "?acc' = acc @ [r]" by (simp add: fallback_step_reverse_eq)
    have "foldl (fallback_step_reverse p) acc (m # ms) = acc @ (r # extra)"
      using e(1) acc' by simp
    moreover have "distinct (map triple_of (r # extra))"
      using e(2,3) acc' by auto
    moreover have "triple_of ` set (r # extra) \<inter> triple_of ` set acc = {}"
      using e(3) acc' r(2) by auto
    moreover have "\<forall>x\<in>set (r # extra). \<exists>m'\<in>set (m # ms). match_record p m' = Some x"
      using e(4) r(1) by auto
    ultimately show ?thesis by blast
  next
    case False
    then have acc': "?acc' = acc"
      by (cases "match_record p m") (auto simp: fallback_step_reverse_eq)
    have "foldl (fallback_step_reverse p) acc (m # ms) = acc @ extra"
      using e(1) acc' by simp
    moreover have "\<forall>x\<in>set extra. \<exists>m'\<in>set (m # ms). match_record p m' = Some x"
      using e(4) by auto
    ultimately show ?thesis using e(2,3) acc' by auto
  qed
qed

lemma fallback_records_split:
  "\<exists>extra. fallback_records p content = forward_records p content @ extra \<and>
     distinct (map triple_of extra) \<and>
     triple_of ` set extra \<inter> triple_of ` set (forward_records p content) = {} \<and>
     (\<forall>r\<in>set extra. \<exists>m\<in>set (findall pattern_reverse content). match_record p m = Some r)"
  unfolding fallback_records_def forward_records_def Let_def
  by (rule foldl_fallback_step_reverse)

lemma fallback_records_mem:
  assumes "r \<in> set (fallback_records p content)"
  shows "\<exists>m. (m \<in> set (findall pattern content) \<or> m \<in> set (findall pattern_reverse content)) \<and>
              match_record p m = Some r"
proof -
  from fallback_records_split [of p content] obtain extra where
    e: "fallback_records p content = forward_records p content @ extra"
       "\<forall>r\<in>set extra. \<exists>m\<in>set (findall pattern_reverse content). match_record p m = Some r"
    by blast
  from assms e(1) have "r \<in> set (forward_records p content) \<or> r \<in> set extra" by simp
  then show ?thesis
  proof
    assume "r \<in> set (forward_records p content)"
    then have "\<exists>m\<in>set (findall pattern content). match_record p m = Some r"
      by (simp add: forward_records_def set_foldl_fallback_step)
    then show ?thesis by blast
  next
    assume "r \<in> set extra"
    with e(2) show ?thesis by blast
  qed
qed

lemma match_record_SomeD:
  "match_record p m = Some r \<Longrightarrow>
     \<exists>t n. m = [t, n] \<and> strip n \<noteq> [] \<and>
           r = \<lparr>object_name = strip n, object_type = t, pkg_file_path = p, line_number = 0\<rparr>"
  by (auto simp: match_record_def split: list.splits if_splits)

section \<open>The sample project, evaluated\<close>

lemmas sample_defs =
  sample_env_def sample_files_def sample_parses_def sample_dirs_def posix_join_def
  foo_content_def foo_tree_def two_content_def two_tree_def unbalanced_content_def
  closed_content_def twice_content_def both_content_def orders_content_def
  false_content_def notype_content_def lowerref_content_def xtype_content_def
  lowertype_content_def py_def

lemmas structured_defs =
  process_pkg_for_references_def structured_records_def structured_step_def endswith_def
  get_def get_default_def strip_def isspace_def warning_def Let_def

lemmas fallback_defs =
  process_pkg_for_references_def fallback_records_def fallback_step_def
  fallback_step_reverse_def findall.simps pattern_def pattern_reverse_def lower_def
  strip_def isspace_def warning_def Let_def


lemma process_b:
  "process_pkg_for_references sample_env (py ''proj/b.pkg'') =
     ([], [warning (py ''proj/b.pkg'') (py ''Permission denied'')])"
  by (simp add: sample_defs structured_defs)

lemma process_c:
  "process_pkg_for_references sample_env (py ''proj/sub/c.pkg'') =
     ([\<lparr>object_name = py ''bar.lib'', object_type = py ''Lib'',
         pkg_file_path = py ''proj/sub/c.pkg'', line_number = 0\<rparr>], [])"
  by (simp add: sample_defs fallback_defs)

lemma process_good:
  "process_pkg_for_references sample_env (py ''two/good.pkg'') =
     ([\<lparr>object_name = py ''a.txt'', object_type = py ''File'',
         pkg_file_path = py ''two/good.pkg'', line_number = 0\<rparr>,
       \<lparr>object_name = py ''b.lib'', object_type = py ''Unknown'',
         pkg_file_path = py ''two/good.pkg'', line_number = 0\<rparr>], [])"
  by (simp add: sample_defs structured_defs)

lemma process_bad:
  "process_pkg_for_references sample_env (py ''two/bad.pkg'') =
     ([], [warning (py ''two/bad.pkg'') (py ''Permission denied'')])"
  by (simp add: sample_defs structured_defs)


section \<open>The extractor, case by case\<close>

lemma strip_valid:
  assumes "strip s \<noteq> []"
  shows "\<not> list_all isspace (strip s)"
proof
  assume "list_all isspace (strip s)"
  with assms have "isspace (hd (strip s))" by (cases "strip s") simp_all
  with assms show False by (simp add: strip_hd)
qed

lemma process_structured:
  "open_read E file_path = Inr content \<Longrightarrow> fromstring E content = Tree root \<Longrightarrow>
   process_pkg_for_references E file_path =
     (map (structured_record file_path) (filter is_reference_object (iter root)), [])"
  by (simp add: process_pkg_for_references_def structured_records_eq)

lemma process_cases:
  "(\<exists>e. open_read E p = Inl e \<and> process_pkg_for_references E p = ([], [warning p e])) \<or>
   (\<exists>c e. open_read E p = Inr c \<and> fromstring E c = Raised e \<and>
           process_pkg_for_references E p = ([], [warning p e])) \<or>
   (\<exists>c root. open_read E p = Inr c \<and> fromstring E c = Tree root \<and>
           process_pkg_for_references E p = (structured_records p root, [])) \<or>
   (\<exists>c. open_read E p = Inr c \<and> fromstring E c = ParseError \<and>
           process_pkg_for_references E p = (fallback_records p c, []))"
  by (simp add: process_pkg_for_references_def split: sum.splits parse_result.splits)

lemma pkg_paths_empty:
  assumes "\<forall>t\<in>set (walk E project_path). \<forall>f\<in>set (snd (snd t)). \<not> endswith f (py ''.pkg'')"
  shows "pkg_paths E project_path = []"
proof -
  have "triple_paths E t = []" if "t \<in> set (walk E project_path)" for t
  proof -
    obtain r ds fs where t: "t = (r, ds, fs)" by (cases t) auto
    with assms that have "\<forall>f\<in>set fs. \<not> endswith f (py ''.pkg'')" by force
    then have "filter (\<lambda>file. endswith file (py ''.pkg'')) fs = []"
      by (simp add: filter_empty_conv)
    with t show ?thesis by (simp add: triple_paths_def)
  qed
  then show ?thesis by (simp add: pkg_paths_def)
qed

section \<open>The claims\<close>

text \<open>
  C1. When the content of a file parses, the extractor returns one record for each
  element, in the order of \<^verbatim>\<open>iter\<close>, whose tag is \<^verbatim>\<open>Object\<close> or ends in
  \<^verbatim>\<open>Object\<close>, whose \<^verbatim>\<open>Reference\<close> attribute is \<^verbatim>\<open>true\<close> and whose trimmed text is not
  empty: the name is the trimmed text and the type is the \<^verbatim>\<open>Type\<close> attribute. So the
  number of records is the number of such elements, and the tree of
  \<^verbatim>\<open><Root><MyObject Type="File" Reference="true">foo.txt</MyObject></Root>\<close> gives the
  one record \<open>(foo.txt, File)\<close>.
\<close>

theorem structured_path_records:
  assumes "open_read E file_path = Inr content" and "fromstring E content = Tree root"
  shows "process_pkg_for_references E file_path =
           (map (structured_record file_path) (filter is_reference_object (iter root)), []) \<and>
         length (fst (process_pkg_for_references E file_path)) =
           length (filter is_reference_object (iter root)) \<and>
         (root = foo_tree \<longrightarrow>
            fst (process_pkg_for_references E file_path) =
              [\<lparr>object_name = py ''foo.txt'', object_type = py ''File'',
                 pkg_file_path = file_path, line_number = 0\<rparr>])"
proof -
  have eq: "process_pkg_for_references E file_path =
      (map (structured_record file_path) (filter is_reference_object (iter root)), [])"
    using assms by (rule process_structured)
  have foo: "map (structured_record file_path) (filter is_reference_object (iter foo_tree)) =
      [\<lparr>object_name = py ''foo.txt'', object_type = py ''File'',
         pkg_file_path = file_path, line_number = 0\<rparr>]"
    by (simp add: foo_tree_def is_reference_object_def structured_record_def trimmed_text_def
        endswith_def get_def get_default_def strip_def isspace_def py_def)
  show ?thesis using eq foo by simp
qed

theorem structured_path_records_witness:
  "open_read sample_env (py ''proj/a.pkg'') = Inr foo_content \<and>
   fromstring sample_env foo_content = Tree foo_tree \<and>
   fst (process_pkg_for_references sample_env (py ''proj/a.pkg'')) =
     [\<lparr>object_name = py ''foo.txt'', object_type = py ''File'',
        pkg_file_path = py ''proj/a.pkg'', line_number = 0\<rparr>]"
proof -
  have h1: "open_read sample_env (py ''proj/a.pkg'') = Inr foo_content"
    by (simp add: sample_defs)
  have h2: "fromstring sample_env foo_content = Tree foo_tree"
    by (simp add: sample_defs)
  from structured_path_records [OF h1 h2] h1 h2 show ?thesis by blast
qed

text \<open>
  C7. On the structured path an element that qualifies (tag, \<^verbatim>\<open>Reference="true"\<close>,
  trimmed text not empty) and has no \<^verbatim>\<open>Type\<close> attribute yields a record whose type is
  \<^verbatim>\<open>Unknown\<close>.
\<close>

theorem unknown_type_on_structured_path:
  assumes "open_read E file_path = Inr content" and "fromstring E content = Tree root"
    and "e \<in> set (iter root)"
    and "endswith (tag e) (py ''Object'') \<or> tag e = py ''Object''"
    and "get e (py ''Reference'') = Some (py ''true'')"
    and "get e (py ''Type'') = None"
    and "trimmed_text e \<noteq> []"
  shows "\<lparr>object_name = trimmed_text e, object_type = py ''Unknown'',
           pkg_file_path = file_path, line_number = 0\<rparr>
         \<in> set (fst (process_pkg_for_references E file_path))"
proof -
  from assms(4,5,7) have q: "is_reference_object e" by (simp add: is_reference_object_def)
  from assms(6) have "structured_record file_path e =
      \<lparr>object_name = trimmed_text e, object_type = py ''Unknown'',
        pkg_file_path = file_path, line_number = 0\<rparr>"
    by (simp add: structured_record_def get_default_def get_def)
  moreover from q assms(3) have "structured_record file_path e \<in>
      set (map (structured_record file_path) (filter is_reference_object (iter root)))"
    by simp
  ultimately show ?thesis using process_structured [OF assms(1,2)] by simp
qed

theorem unknown_type_on_structured_path_witness:
  "open_read sample_env (py ''two/good.pkg'') = Inr two_content \<and>
   fromstring sample_env two_content = Tree two_tree \<and>
   Element (py ''LibObject'') [(py ''Reference'', py ''true'')] (Some (py ''b.lib'')) []
     \<in> set (iter two_tree) \<and>
   endswith (py ''LibObject'') (py ''Object'') \<and>
   \<lparr>object_name = py ''b.lib'', object_type = py ''Unknown'',
      pkg_file_path = py ''two/good.pkg'', line_number = 0\<rparr>
     \<in> set (fst (process_pkg_for_references sample_env (py ''two/good.pkg'')))"
proof -
  let ?e = "Element (py ''LibObject'') [(py ''Reference'', py ''true'')] (Some (py ''b.lib'')) []"
  have h1: "open_read sample_env (py ''two/good.pkg'') = Inr two_content"
    by (simp add: sample_defs)
  have h2: "fromstring sample_env two_content = Tree two_tree"
    by (simp add: sample_defs)
  have h3: "?e \<in> set (iter two_tree)"
    by (simp add: two_tree_def)
  have h4': "endswith (py ''LibObject'') (py ''Object'')"
    by (simp add: endswith_def py_def)
  then have h4: "endswith (tag ?e) (py ''Object'') \<or> tag ?e = py ''Object''"
    by simp
  have h5: "get ?e (py ''Reference'') = Some (py ''true'')"
    by (simp add: get_def py_def)
  have h6: "get ?e (py ''Type'') = None"
    by (simp add: get_def py_def)
  have t: "trimmed_text ?e = py ''b.lib''"
    by (simp add: trimmed_text_def strip_def isspace_def py_def)
  then have h7: "trimmed_text ?e \<noteq> []" by (simp add: py_def)
  from unknown_type_on_structured_path [OF h1 h2 h3 h4 h5 h6 h7] h1 h2 h3 h4' t
  show ?thesis by simp
qed

text \<open>
  C9. Every record the extractor returns, on either path, has a name that is not empty,
  is not made of whitespace only and is already trimmed; its path is the path of the
  file it was extracted from and its line number is zero.
\<close>

theorem record_invariant:
  assumes "r \<in> set (fst (process_pkg_for_references E file_path))"
  shows "object_name r \<noteq> [] \<and> \<not> list_all isspace (object_name r) \<and>
         strip (object_name r) = object_name r \<and>
         pkg_file_path r = file_path \<and> line_number r = 0"
proof -
  consider (struct) root where "process_pkg_for_references E file_path = (structured_records file_path root, [])"
    | (fallback) c where "process_pkg_for_references E file_path = (fallback_records file_path c, [])"
    | (failed) e where "process_pkg_for_references E file_path = ([], [warning file_path e])"
    using process_cases [of E file_path] by blast
  then show ?thesis
  proof cases
    case struct
    with assms obtain e where e: "is_reference_object e" "r = structured_record file_path e"
      by (auto simp: structured_records_eq)
    from e(1) obtain t where t: "text' e = Some t" "strip t \<noteq> []"
      by (auto simp: is_reference_object_def trimmed_text_def split: option.splits)
    with e(2) have "object_name r = strip t" "pkg_file_path r = file_path" "line_number r = 0"
      by (simp_all add: structured_record_def trimmed_text_def)
    with t(2) show ?thesis by (simp add: strip_valid strip_idem)
  next
    case fallback
    with assms have "r \<in> set (fallback_records file_path c)" by simp
    then obtain m where "match_record file_path m = Some r"
      using fallback_records_mem by blast
    then obtain t n where "strip n \<noteq> []"
      "r = \<lparr>object_name = strip n, object_type = t, pkg_file_path = file_path, line_number = 0\<rparr>"
      using match_record_SomeD by blast
    then show ?thesis by (simp add: strip_valid strip_idem)
  next
    case failed
    with assms show ?thesis by simp
  qed
qed

theorem record_invariant_witness:
  "\<lparr>object_name = py ''bar.lib'', object_type = py ''Lib'',
      pkg_file_path = py ''proj/sub/c.pkg'', line_number = 0\<rparr>
     \<in> set (fst (process_pkg_for_references sample_env (py ''proj/sub/c.pkg''))) \<and>
   py ''bar.lib'' \<noteq> [] \<and> \<not> list_all isspace (py ''bar.lib'') \<and>
   strip (py ''bar.lib'') = py ''bar.lib''"
proof -
  let ?r = "\<lparr>object_name = py ''bar.lib'', object_type = py ''Lib'',
      pkg_file_path = py ''proj/sub/c.pkg'', line_number = 0\<rparr>"
  have h: "?r \<in> set (fst (process_pkg_for_references sample_env (py ''proj/sub/c.pkg'')))"
    by (simp add: process_c)
  from record_invariant [OF h] h show ?thesis by simp
qed

text \<open>
  C10. When \<^verbatim>\<open>os.walk\<close> yields nothing from the root (which is what it does, errors
  being ignored, for a path that does not exist), or yields no file name ending in
  \<^verbatim>\<open>.pkg\<close>, the walker returns the empty list, and nothing is printed.
\<close>

theorem nothing_to_scan:
  assumes "walk E project_path = [] \<or>
           (\<forall>t\<in>set (walk E project_path). \<forall>f\<in>set (snd (snd t)). \<not> endswith f (py ''.pkg''))"
  shows "check_reference_objects E project_path = ([], [])"
proof -
  from assms have "\<forall>t\<in>set (walk E project_path). \<forall>f\<in>set (snd (snd t)). \<not> endswith f (py ''.pkg'')"
    by auto
  then have "pkg_paths E project_path = []" by (rule pkg_paths_empty)
  then show ?thesis by (simp add: check_reference_objects_eq)
qed

theorem nothing_to_scan_witness:
  "walk sample_env (py ''missing'') = [] \<and>
   check_reference_objects sample_env (py ''missing'') = ([], []) \<and>
   walk sample_env (py ''docs'') = [(py ''docs'', [], [py ''readme.txt''])] \<and>
   \<not> endswith (py ''readme.txt'') (py ''.pkg'') \<and>
   check_reference_objects sample_env (py ''docs'') = ([], [])"
proof -
  have w1: "walk sample_env (py ''missing'') = []"
    by (simp add: sample_defs)
  have w2: "walk sample_env (py ''docs'') = [(py ''docs'', [], [py ''readme.txt''])]"
    by (simp add: sample_defs)
  have n: "\<not> endswith (py ''readme.txt'') (py ''.pkg'')"
    by (simp add: endswith_def py_def)
  have h1: "walk sample_env (py ''missing'') = [] \<or>
      (\<forall>t\<in>set (walk sample_env (py ''missing'')). \<forall>f\<in>set (snd (snd t)). \<not> endswith f (py ''.pkg''))"
    using w1 by simp
  have h2: "walk sample_env (py ''docs'') = [] \<or>
      (\<forall>t\<in>set (walk sample_env (py ''docs'')). \<forall>f\<in>set (snd (snd t)). \<not> endswith f (py ''.pkg''))"
    using w2 n by simp
  from nothing_to_scan [OF h1] nothing_to_scan [OF h2] w1 w2 n show ?thesis by blast
qed




text \<open>
  C8. The walker returns the concatenation, in the order of the walk, of the lists the
  extractor returns for the files whose name ends in \<^verbatim>\<open>.pkg\<close>; other files contribute
  nothing. A directory with two such files that give two records and none gives a list
  of two records.
\<close>

theorem walker_concatenates:
  "check_reference_objects E project_path =
     (concat (map (\<lambda>p. fst (process_pkg_for_references E p)) (pkg_paths E project_path)),
      concat (map (\<lambda>p. snd (process_pkg_for_references E p)) (pkg_paths E project_path))) \<and>
   pkg_paths E project_path =
     concat (map (\<lambda>(root, dirs, files).
                    map (path_join E root) (filter (\<lambda>file. endswith file (py ''.pkg'')) files))
                 (walk E project_path)) \<and>
   (walk E project_path = [(root, dirs, [f1, f2])] \<and>
    endswith f1 (py ''.pkg'') \<and> endswith f2 (py ''.pkg'') \<and>
    length (fst (process_pkg_for_references E (path_join E root f1))) = 2 \<and>
    fst (process_pkg_for_references E (path_join E root f2)) = [] \<longrightarrow>
    length (fst (check_reference_objects E project_path)) = 2)"
proof -
  have paths: "pkg_paths E project_path =
     concat (map (\<lambda>(root, dirs, files).
                    map (path_join E root) (filter (\<lambda>file. endswith file (py ''.pkg'')) files))
                 (walk E project_path))"
    unfolding pkg_paths_def
    by (rule arg_cong [where f = concat], rule map_cong) (auto simp: triple_paths_def)
  have two: "length (fst (check_reference_objects E project_path)) = 2"
    if "walk E project_path = [(root, dirs, [f1, f2])]"
      "endswith f1 (py ''.pkg'')" "endswith f2 (py ''.pkg'')"
      "length (fst (process_pkg_for_references E (path_join E root f1))) = 2"
      "fst (process_pkg_for_references E (path_join E root f2)) = []"
    using that by (simp add: check_reference_objects_eq paths)
  show ?thesis using check_reference_objects_eq [of E project_path] paths two by blast
qed

theorem walker_concatenates_witness:
  "walk sample_env (py ''two'') = [(py ''two'', [], [py ''good.pkg'', py ''bad.pkg''])] \<and>
   endswith (py ''good.pkg'') (py ''.pkg'') \<and> endswith (py ''bad.pkg'') (py ''.pkg'') \<and>
   length (fst (process_pkg_for_references sample_env (path_join sample_env (py ''two'') (py ''good.pkg'')))) = 2 \<and>
   fst (process_pkg_for_references sample_env (path_join sample_env (py ''two'') (py ''bad.pkg''))) = [] \<and>
   length (fst (check_reference_objects sample_env (py ''two''))) = 2"
proof -
  have w: "walk sample_env (py ''two'') = [(py ''two'', [], [py ''good.pkg'', py ''bad.pkg''])]"
    by (simp add: sample_defs)
  have e1: "endswith (py ''good.pkg'') (py ''.pkg'')" and e2: "endswith (py ''bad.pkg'') (py ''.pkg'')"
    by (simp_all add: endswith_def py_def)
  have j1: "path_join sample_env (py ''two'') (py ''good.pkg'') = py ''two/good.pkg''"
    and j2: "path_join sample_env (py ''two'') (py ''bad.pkg'') = py ''two/bad.pkg''"
    by (simp_all add: sample_defs)
  have g: "length (fst (process_pkg_for_references sample_env
      (path_join sample_env (py ''two'') (py ''good.pkg'')))) = 2"
    unfolding j1 by (simp add: process_good)
  have b: "fst (process_pkg_for_references sample_env
      (path_join sample_env (py ''two'') (py ''bad.pkg''))) = []"
    unfolding j2 by (simp add: process_bad)
  from walker_concatenates [of sample_env "py ''two''" "py ''two''" "[]" "py ''good.pkg''" "py ''bad.pkg''"]
    w e1 e2 g b
  show ?thesis by blast
qed

section \<open>Where the records of the fallback path come from\<close>

lemma contains_ci_Nil: "contains_ci [] s"
  by (cases s) simp_all

lemma match_lits_append_right: "match_lits l a = Some b \<Longrightarrow> match_lits l (a @ c) = Some (b @ c)"
  by (induction l a rule: match_lits.induct) (simp_all split: if_splits)

lemma contains_ci_append_right: "contains_ci l a \<Longrightarrow> contains_ci l (a @ c)"
proof (induction a)
  case Nil
  then have "l = []" by (cases l) simp_all
  then show ?case by (simp add: contains_ci_Nil)
next
  case (Cons x xs)
  from Cons.prems have "match_lits l (x # xs) \<noteq> None \<or> contains_ci l xs" by simp
  then show ?case
  proof
    assume "match_lits l (x # xs) \<noteq> None"
    then obtain b where "match_lits l (x # xs) = Some b" by blast
    then have "match_lits l ((x # xs) @ c) = Some (b @ c)" by (rule match_lits_append_right)
    then show ?thesis by simp
  next
    assume "contains_ci l xs"
    then have "contains_ci l (xs @ c)" by (rule Cons.IH)
    then show ?thesis by simp
  qed
qed

lemma match_items_matched:
  "match_items ps s = Some (gs, rest) \<Longrightarrow>
     \<exists>m. s = m @ rest \<and> (\<forall>l. Lits l \<in> set ps \<longrightarrow> contains_ci l m)"
proof (induction ps arbitrary: s gs rest)
  case Nil
  then show ?case by simp
next
  case (Cons it ps)
  show ?case
  proof (cases it)
    case (Lits l')
    with Cons.prems obtain s' where ml: "match_lits l' s = Some s'" and mi: "match_items ps s' = Some (gs, rest)"
      by (auto split: option.splits)
    from ml obtain m1 where m1: "s = m1 @ s'" "length m1 = length l'" "map lower m1 = map lower l'"
      using match_lits_SomeD by blast
    from Cons.IH [OF mi] obtain m2 where m2: "s' = m2 @ rest" "\<forall>l. Lits l \<in> set ps \<longrightarrow> contains_ci l m2"
      by blast
    have "contains_ci l' (m1 @ m2)"
      using match_lits_append [OF m1(2,3), of m2] by (simp add: contains_ci_here)
    moreover have "contains_ci l (m1 @ m2)" if "Lits l \<in> set ps" for l
      using that m2(2) by (simp add: contains_ci_append)
    ultimately have "s = (m1 @ m2) @ rest \<and> (\<forall>l. Lits l \<in> set (it # ps) \<longrightarrow> contains_ci l (m1 @ m2))"
      using m1(1) m2(1) Lits by auto
    then show ?thesis by blast
  next
    case (NotStar c)
    from Cons.prems NotStar obtain j where mi: "match_items ps (drop j s) = Some (gs, rest)"
      using greedy_SomeD [of "\<lambda>run s'. match_items ps s'" s _ "(gs, rest)"] by auto
    from Cons.IH [OF mi] obtain m2 where m2: "drop j s = m2 @ rest" "\<forall>l. Lits l \<in> set ps \<longrightarrow> contains_ci l m2"
      by blast
    have "s = (take j s @ m2) @ rest"
      using m2(1) by (metis append.assoc append_take_drop_id)
    moreover have "\<forall>l. Lits l \<in> set (it # ps) \<longrightarrow> contains_ci l (take j s @ m2)"
      using m2(2) NotStar by (simp add: contains_ci_append)
    ultimately show ?thesis by blast
  next
    case (Group c)
    from Cons.prems Group obtain j where
      "(case match_items ps (drop j s) of None \<Rightarrow> None | Some (gs', s'') \<Rightarrow> Some (take j s # gs', s''))
         = Some (gs, rest)"
      using greedy_SomeD [of "\<lambda>run s'. case match_items ps s' of None \<Rightarrow> None
                                         | Some (gs', s'') \<Rightarrow> Some (run # gs', s'')" s _ "(gs, rest)"]
      by auto
    then obtain gs' where mi: "match_items ps (drop j s) = Some (gs', rest)"
      by (auto split: option.splits)
    from Cons.IH [OF mi] obtain m2 where m2: "drop j s = m2 @ rest" "\<forall>l. Lits l \<in> set ps \<longrightarrow> contains_ci l m2"
      by blast
    have "s = (take j s @ m2) @ rest"
      using m2(1) by (metis append.assoc append_take_drop_id)
    moreover have "\<forall>l. Lits l \<in> set (it # ps) \<longrightarrow> contains_ci l (take j s @ m2)"
      using m2(2) Group by (simp add: contains_ci_append)
    ultimately show ?thesis by blast
  qed
qed

lemma fallback_record_origin:
  assumes "r \<in> set (fallback_records p content)"
  shows "\<exists>pat pre m post gs.
           (pat = pattern \<or> pat = pattern_reverse) \<and> content = pre @ m @ post \<and>
           match_items pat (m @ post) = Some (gs, post) \<and> match_record p gs = Some r \<and>
           (\<forall>l. Lits l \<in> set pat \<longrightarrow> contains_ci l m) \<and>
           (\<forall>l. in_open_tag l pat \<longrightarrow> contains_ci l (open_tag (m @ post)))"
proof -
  from fallback_records_mem [OF assms] obtain gs pat where
    pat: "pat = pattern \<or> pat = pattern_reverse" and gs: "gs \<in> set (findall pat content)"
    and mr: "match_record p gs = Some r"
    by blast
  from findall_SomeD [OF gs] obtain i post where mi: "match_items pat (drop i content) = Some (gs, post)"
    by blast
  from match_items_matched [OF mi] obtain m where
    m: "drop i content = m @ post" "\<forall>l. Lits l \<in> set pat \<longrightarrow> contains_ci l m"
    by blast
  have "content = take i content @ m @ post"
    using m(1) by (metis append_take_drop_id)
  moreover have "match_items pat (m @ post) = Some (gs, post)"
    using mi m(1) by simp
  moreover have "\<forall>l. in_open_tag l pat \<longrightarrow> contains_ci l (open_tag (m @ post))"
    using mi m(1) match_items_open_tag by metis
  ultimately show ?thesis using pat mr m(2) by blast
qed

lemma fallback_needs_literal:
  assumes "Lits l \<in> set pattern" and "Lits l \<in> set pattern_reverse"
    and "\<not> contains_ci l content"
  shows "fallback_records p content = []"
proof (rule ccontr)
  assume "fallback_records p content \<noteq> []"
  then obtain r where "r \<in> set (fallback_records p content)"
    by (cases "fallback_records p content") auto
  from fallback_record_origin [OF this] obtain pat pre m post where
    "pat = pattern \<or> pat = pattern_reverse" "content = pre @ m @ post"
    "\<forall>l. Lits l \<in> set pat \<longrightarrow> contains_ci l m"
    by blast
  with assms(1,2) have "contains_ci l m" "content = pre @ (m @ post)" by auto
  then have "contains_ci l content"
    by (simp add: contains_ci_append contains_ci_append_right)
  with assms(3) show False by simp
qed


section \<open>The claims about the fallback path\<close>

text \<open>
  C4, as stated, fails: for the content
  \<^verbatim>\<open><Object Type="Lib" Reference="true">bar.lib<Object>\<close> the parse fails and neither
  pattern matches, because both end in the closing tag \<^verbatim>\<open></Object>\<close>; the extractor
  returns no record.
\<close>

theorem unbalanced_example_counterexample:
  "open_read sample_env (py ''unbalanced.pkg'') = Inr unbalanced_content \<and>
   fromstring sample_env unbalanced_content = ParseError \<and>
   findall pattern unbalanced_content = [] \<and>
   findall pattern_reverse unbalanced_content = [] \<and>
   fst (process_pkg_for_references sample_env (py ''unbalanced.pkg'')) = []"
  by (simp add: sample_defs fallback_defs)

text \<open>
  C4, amended. The fallback path returns no record for a content in which the text
  \<^verbatim>\<open></Object>\<close> does not occur (letters compared without case), and so none for the
  content above; for the content
  \<^verbatim>\<open><Object Type="Lib" Reference="true">bar.lib</Object><Object>\<close>, whose tags are
  unbalanced too, it returns the one record \<open>(bar.lib, Lib)\<close>.
\<close>

theorem closing_tag_required:
  "(\<not> contains_ci (py ''</Object>'') content \<longrightarrow> fallback_records p content = []) \<and>
   (open_read E p = Inr unbalanced_content \<and> fromstring E unbalanced_content = ParseError \<longrightarrow>
      process_pkg_for_references E p = ([], [])) \<and>
   (open_read E p = Inr closed_content \<and> fromstring E closed_content = ParseError \<longrightarrow>
      process_pkg_for_references E p =
        ([\<lparr>object_name = py ''bar.lib'', object_type = py ''Lib'',
            pkg_file_path = p, line_number = 0\<rparr>], []))"
proof -
  have a: "fallback_records p content = []" if "\<not> contains_ci (py ''</Object>'') content"
    using _ _ that by (rule fallback_needs_literal) (simp_all add: pattern_def pattern_reverse_def)
  have b: "fallback_records p unbalanced_content = []"
    by (simp add: unbalanced_content_def py_def fallback_records_def fallback_step_def
        fallback_step_reverse_def findall.simps pattern_def pattern_reverse_def lower_def Let_def)
  have c: "fallback_records p closed_content =
      [\<lparr>object_name = py ''bar.lib'', object_type = py ''Lib'', pkg_file_path = p, line_number = 0\<rparr>]"
    by (simp add: closed_content_def py_def fallback_records_def fallback_step_def
        fallback_step_reverse_def findall.simps pattern_def pattern_reverse_def lower_def
        strip_def isspace_def Let_def)
  show ?thesis using a b c by (auto simp: process_pkg_for_references_def)
qed

theorem closing_tag_required_witness:
  "\<not> contains_ci (py ''</Object>'') unbalanced_content \<and>
   fallback_records (py ''unbalanced.pkg'') unbalanced_content = [] \<and>
   open_read sample_env (py ''unbalanced.pkg'') = Inr unbalanced_content \<and>
   fromstring sample_env unbalanced_content = ParseError \<and>
   process_pkg_for_references sample_env (py ''unbalanced.pkg'') = ([], []) \<and>
   open_read sample_env (py ''proj/sub/c.pkg'') = Inr closed_content \<and>
   fromstring sample_env closed_content = ParseError \<and>
   process_pkg_for_references sample_env (py ''proj/sub/c.pkg'') =
     ([\<lparr>object_name = py ''bar.lib'', object_type = py ''Lib'',
         pkg_file_path = py ''proj/sub/c.pkg'', line_number = 0\<rparr>], [])"
proof -
  have n: "\<not> contains_ci (py ''</Object>'') unbalanced_content"
    by (simp add: unbalanced_content_def py_def lower_def)
  have o1: "open_read sample_env (py ''unbalanced.pkg'') = Inr unbalanced_content"
    and f1: "fromstring sample_env unbalanced_content = ParseError"
    and o2: "open_read sample_env (py ''proj/sub/c.pkg'') = Inr closed_content"
    and f2: "fromstring sample_env closed_content = ParseError"
    by (simp_all add: sample_defs)
  from closing_tag_required [of unbalanced_content "py ''unbalanced.pkg''" sample_env]
    closing_tag_required [of unbalanced_content "py ''proj/sub/c.pkg''" sample_env]
    n o1 f1 o2 f2
  show ?thesis by blast
qed




text \<open>
  C5, as stated, fails on the fallback path. The one element of \<^verbatim>\<open>false.pkg\<close>,
  \<^verbatim>\<open><Object Type="A" Reference="false" XReference="true">X</Object>\<close>, has the
  \<^verbatim>\<open>Reference\<close> attribute \<^verbatim>\<open>false\<close>, and the one of \<^verbatim>\<open>lowerref.pkg\<close>,
  \<^verbatim>\<open><Object Type="A" reference="true">X</Object>\<close>, has no \<^verbatim>\<open>Reference\<close> attribute;
  the fallback path returns a record for each: the pattern looks for the text
  \<^verbatim>\<open>Reference="true"\<close> in the tag, letters compared without case.
\<close>

theorem reference_false_counterexample:
  "open_read sample_env (py ''false.pkg'') = Inr false_content \<and>
   fromstring sample_env false_content = ParseError \<and>
   fst (process_pkg_for_references sample_env (py ''false.pkg'')) =
     [\<lparr>object_name = py ''X'', object_type = py ''A'',
        pkg_file_path = py ''false.pkg'', line_number = 0\<rparr>] \<and>
   open_read sample_env (py ''lowerref.pkg'') = Inr lowerref_content \<and>
   fromstring sample_env lowerref_content = ParseError \<and>
   fst (process_pkg_for_references sample_env (py ''lowerref.pkg'')) =
     [\<lparr>object_name = py ''X'', object_type = py ''A'',
        pkg_file_path = py ''lowerref.pkg'', line_number = 0\<rparr>]"
  by (simp add: sample_defs fallback_defs)

text \<open>
  C5, amended. On the structured path every record comes from an element whose tag
  qualifies and whose \<^verbatim>\<open>Reference\<close> attribute is exactly \<^verbatim>\<open>true\<close>. On the fallback
  path every record is the record of a match of one of the two patterns in the content,
  and the matched text contains \<^verbatim>\<open>Reference="true"\<close>, letters compared without case.
\<close>

theorem reference_true_required:
  "(r \<in> set (structured_records p root) \<longrightarrow>
      (\<exists>e\<in>set (iter root).
         (endswith (tag e) (py ''Object'') \<or> tag e = py ''Object'') \<and>
         get e (py ''Reference'') = Some (py ''true'') \<and> r = structured_record p e)) \<and>
   (r \<in> set (fallback_records p content) \<longrightarrow>
      (\<exists>pat pre m post gs.
         (pat = pattern \<or> pat = pattern_reverse) \<and> content = pre @ m @ post \<and>
         match_items pat (m @ post) = Some (gs, post) \<and> match_record p gs = Some r \<and>
         contains_ci (py ''Reference=\"true\"'') m))"
proof (intro conjI impI)
  assume "r \<in> set (structured_records p root)"
  then obtain e where "e \<in> set (iter root)" "is_reference_object e" "r = structured_record p e"
    by (auto simp: structured_records_eq)
  then show "\<exists>e\<in>set (iter root).
         (endswith (tag e) (py ''Object'') \<or> tag e = py ''Object'') \<and>
         get e (py ''Reference'') = Some (py ''true'') \<and> r = structured_record p e"
    unfolding is_reference_object_def by blast
next
  assume "r \<in> set (fallback_records p content)"
  from fallback_record_origin [OF this] obtain pat pre m post gs where
    o: "pat = pattern \<or> pat = pattern_reverse" "content = pre @ m @ post"
       "match_items pat (m @ post) = Some (gs, post)" "match_record p gs = Some r"
       "\<forall>l. Lits l \<in> set pat \<longrightarrow> contains_ci l m"
    by blast
  from o(1) have "Lits (py ''Reference=\"true\"'') \<in> set pat"
    by (auto simp: pattern_def pattern_reverse_def)
  with o(5) have "contains_ci (py ''Reference=\"true\"'') m" by blast
  with o(1-4) show "\<exists>pat pre m post gs.
         (pat = pattern \<or> pat = pattern_reverse) \<and> content = pre @ m @ post \<and>
         match_items pat (m @ post) = Some (gs, post) \<and> match_record p gs = Some r \<and>
         contains_ci (py ''Reference=\"true\"'') m"
    by blast
qed

theorem reference_true_required_witness:
  "\<lparr>object_name = py ''foo.txt'', object_type = py ''File'',
      pkg_file_path = py ''proj/a.pkg'', line_number = 0\<rparr>
     \<in> set (structured_records (py ''proj/a.pkg'') foo_tree) \<and>
   (\<exists>e\<in>set (iter foo_tree).
      (endswith (tag e) (py ''Object'') \<or> tag e = py ''Object'') \<and>
      get e (py ''Reference'') = Some (py ''true'') \<and>
      \<lparr>object_name = py ''foo.txt'', object_type = py ''File'',
         pkg_file_path = py ''proj/a.pkg'', line_number = 0\<rparr> =
        structured_record (py ''proj/a.pkg'') e) \<and>
   \<lparr>object_name = py ''X'', object_type = py ''A'',
      pkg_file_path = py ''false.pkg'', line_number = 0\<rparr>
     \<in> set (fallback_records (py ''false.pkg'') false_content) \<and>
   (\<exists>pat pre m post gs.
      (pat = pattern \<or> pat = pattern_reverse) \<and> false_content = pre @ m @ post \<and>
      match_items pat (m @ post) = Some (gs, post) \<and>
      match_record (py ''false.pkg'') gs =
        Some \<lparr>object_name = py ''X'', object_type = py ''A'',
               pkg_file_path = py ''false.pkg'', line_number = 0\<rparr> \<and>
      contains_ci (py ''Reference=\"true\"'') m)"
proof -
  have h1: "\<lparr>object_name = py ''foo.txt'', object_type = py ''File'',
      pkg_file_path = py ''proj/a.pkg'', line_number = 0\<rparr>
     \<in> set (structured_records (py ''proj/a.pkg'') foo_tree)"
    by (simp add: foo_tree_def py_def structured_records_def structured_step_def endswith_def
        get_def get_default_def strip_def isspace_def Let_def)
  have h2: "\<lparr>object_name = py ''X'', object_type = py ''A'',
      pkg_file_path = py ''false.pkg'', line_number = 0\<rparr>
     \<in> set (fallback_records (py ''false.pkg'') false_content)"
    by (simp add: false_content_def py_def fallback_records_def fallback_step_def
        fallback_step_reverse_def findall.simps pattern_def pattern_reverse_def lower_def
        strip_def isspace_def Let_def)
  from reference_true_required [of _ "py ''proj/a.pkg''" foo_tree false_content] h1
    reference_true_required [of _ "py ''false.pkg''" foo_tree false_content] h2
  show ?thesis by blast
qed

text \<open>
  C6, as stated, fails. The one element of \<^verbatim>\<open>lowertype.pkg\<close>,
  \<^verbatim>\<open><Object type="A" Reference="true">X</Object>\<close>, and the one of \<^verbatim>\<open>xtype.pkg\<close>,
  \<^verbatim>\<open><Object XType="A" Reference="true">X</Object>\<close>, have no \<^verbatim>\<open>Type\<close> attribute, and
  the fallback path returns a record of type \<^verbatim>\<open>A\<close> for each: the pattern looks for the
  text \<^verbatim>\<open>Type="\<close> in the tag, letters compared without case.
\<close>

theorem type_attribute_counterexample:
  "open_read sample_env (py ''lowertype.pkg'') = Inr lowertype_content \<and>
   fromstring sample_env lowertype_content = ParseError \<and>
   fst (process_pkg_for_references sample_env (py ''lowertype.pkg'')) =
     [\<lparr>object_name = py ''X'', object_type = py ''A'',
        pkg_file_path = py ''lowertype.pkg'', line_number = 0\<rparr>] \<and>
   open_read sample_env (py ''xtype.pkg'') = Inr xtype_content \<and>
   fromstring sample_env xtype_content = ParseError \<and>
   fst (process_pkg_for_references sample_env (py ''xtype.pkg'')) =
     [\<lparr>object_name = py ''X'', object_type = py ''A'',
        pkg_file_path = py ''xtype.pkg'', line_number = 0\<rparr>]"
  by (simp add: sample_defs fallback_defs)

text \<open>
  C6, amended. On the fallback path every record is the record of a match of one of the
  two patterns, and the tag at which the match starts contains the text \<^verbatim>\<open>Type="\<close>
  before its first \<^verbatim>\<open>>\<close> (letters compared without case); a content in which that text
  does not occur gives no record, whatever its \<^verbatim>\<open>Reference\<close> attributes.
\<close>

theorem fallback_needs_type:
  "(r \<in> set (fallback_records p content) \<longrightarrow>
      (\<exists>pat pre m post gs.
         (pat = pattern \<or> pat = pattern_reverse) \<and> content = pre @ m @ post \<and>
         match_items pat (m @ post) = Some (gs, post) \<and> match_record p gs = Some r \<and>
         contains_ci (py ''Type=\"'') (open_tag (m @ post)))) \<and>
   (\<not> contains_ci (py ''Type=\"'') content \<longrightarrow> fallback_records p content = [])"
proof (intro conjI impI)
  assume "r \<in> set (fallback_records p content)"
  from fallback_record_origin [OF this] obtain pat pre m post gs where
    o: "pat = pattern \<or> pat = pattern_reverse" "content = pre @ m @ post"
       "match_items pat (m @ post) = Some (gs, post)" "match_record p gs = Some r"
       "\<forall>l. in_open_tag l pat \<longrightarrow> contains_ci l (open_tag (m @ post))"
    by blast
  from o(1) have "in_open_tag (py ''Type=\"'') pat"
    by (auto simp: pattern_def pattern_reverse_def py_def)
  with o(5) have "contains_ci (py ''Type=\"'') (open_tag (m @ post))" by blast
  with o(1-4) show "\<exists>pat pre m post gs.
         (pat = pattern \<or> pat = pattern_reverse) \<and> content = pre @ m @ post \<and>
         match_items pat (m @ post) = Some (gs, post) \<and> match_record p gs = Some r \<and>
         contains_ci (py ''Type=\"'') (open_tag (m @ post))"
    by blast
next
  assume "\<not> contains_ci (py ''Type=\"'') content"
  with _ _ show "fallback_records p content = []"
    by (rule fallback_needs_literal) (simp_all add: pattern_def pattern_reverse_def)
qed

theorem fallback_needs_type_witness:
  "\<lparr>object_name = py ''bar.lib'', object_type = py ''Lib'',
      pkg_file_path = py ''proj/sub/c.pkg'', line_number = 0\<rparr>
     \<in> set (fallback_records (py ''proj/sub/c.pkg'') closed_content) \<and>
   (\<exists>pat pre m post gs.
      (pat = pattern \<or> pat = pattern_reverse) \<and> closed_content = pre @ m @ post \<and>
      match_items pat (m @ post) = Some (gs, post) \<and>
      match_record (py ''proj/sub/c.pkg'') gs =
        Some \<lparr>object_name = py ''bar.lib'', object_type = py ''Lib'',
               pkg_file_path = py ''proj/sub/c.pkg'', line_number = 0\<rparr> \<and>
      contains_ci (py ''Type=\"'') (open_tag (m @ post))) \<and>
   \<not> contains_ci (py ''Type=\"'') notype_content \<and>
   fallback_records (py ''notype.pkg'') notype_content = []"
proof -
  have h1: "\<lparr>object_name = py ''bar.lib'', object_type = py ''Lib'',
      pkg_file_path = py ''proj/sub/c.pkg'', line_number = 0\<rparr>
     \<in> set (fallback_records (py ''proj/sub/c.pkg'') closed_content)"
    by (simp add: closed_content_def py_def fallback_records_def fallback_step_def
        fallback_step_reverse_def findall.simps pattern_def pattern_reverse_def lower_def
        strip_def isspace_def Let_def)
  have h2: "\<not> contains_ci (py ''Type=\"'') notype_content"
    by (simp add: notype_content_def py_def lower_def)
  from fallback_needs_type [of _ "py ''proj/sub/c.pkg''" closed_content] h1
    fallback_needs_type [of _ "py ''notype.pkg''" notype_content] h2
  show ?thesis by blast
qed

end
